theory Spec2Isabelle
  imports Main "HOL-Library.Monad_Syntax"
begin

section \<open>The store: nodes and references\<close>

text \<open>
  The source (\<^verbatim>\<open>src/structs/singlyLinkedList.ts\<close>) is a class over mutable \<^verbatim>\<open>Node\<close>
  objects that are shared by reference: \<^verbatim>\<open>#head\<close>, \<^verbatim>\<open>#tail\<close> and the \<^verbatim>\<open>next\<close> fields
  may all name the same object. The embedding therefore keeps an explicit store. A
  reference is the index of the object in the store, \<^verbatim>\<open>null\<close> is \<open>None\<close>, and
  \<^verbatim>\<open>new Node(data)\<close> appends an object, so that its reference is fresh. Objects are never
  taken out of the store: an object that no reference names any more is simply not
  reached.
\<close>

type_synonym addr = nat

record 'a node =
  data :: 'a
  nxt :: "addr option"

type_synonym 'a store = "'a node list"

text \<open>\<^verbatim>\<open>constructor (data) { this.data = data; this.next = null }\<close>\<close>

definition new_Node :: "'a store \<Rightarrow> 'a \<Rightarrow> 'a store \<times> addr" where
  "new_Node h d = (h @ [\<lparr>data = d, nxt = None\<rparr>], length h)"

text \<open>The assignments \<^verbatim>\<open>n.next = v\<close> and \<^verbatim>\<open>n.data = d\<close> on the object at \<open>n\<close>.\<close>

definition assign_next :: "'a store \<Rightarrow> addr \<Rightarrow> addr option \<Rightarrow> 'a store" where
  "assign_next h n v = h[n := (h ! n)\<lparr>nxt := v\<rparr>]"

definition assign_data :: "'a store \<Rightarrow> addr \<Rightarrow> 'a \<Rightarrow> 'a store" where
  "assign_data h n d = h[n := (h ! n)\<lparr>data := d\<rparr>]"

section \<open>The list object\<close>

text \<open>
  The private fields \<^verbatim>\<open>#head\<close>, \<^verbatim>\<open>#tail\<close> and \<^verbatim>\<open>#length\<close>, together with the store
  they point into. \<^verbatim>\<open>#length\<close> is a JavaScript number that the code only ever
  increments, decrements or resets to 0, so it is an integer; nothing keeps it from
  going below zero.
\<close>

record 'a sll =
  store :: "'a store"
  s_head :: "addr option"
  s_tail :: "addr option"
  s_length :: int

definition constructor :: "'a sll" where
  "constructor = \<lparr>store = [], s_head = None, s_tail = None, s_length = 0\<rparr>"

text \<open>The three accessors \<^verbatim>\<open>length()\<close>, \<^verbatim>\<open>head()\<close> and \<^verbatim>\<open>tail()\<close>.\<close>

definition length_sll :: "'a sll \<Rightarrow> int" where
  "length_sll s = s_length s"

definition head :: "'a sll \<Rightarrow> addr option" where
  "head s = s_head s"

definition tail :: "'a sll \<Rightarrow> addr option" where
  "tail s = s_tail s"

subsection \<open>push\<close>

definition push :: "'a sll \<Rightarrow> 'a \<Rightarrow> 'a sll" where
  "push s d =
    (let (h1, node) = new_Node (store s) d;
         head1 = (if s_head s = None then Some node else s_head s);
         h2 = (case s_tail s of
                 Some t \<Rightarrow> assign_next h1 t (Some node)
               | None \<Rightarrow> h1)
     in \<lparr>store = h2, s_head = head1, s_tail = Some node, s_length = s_length s + 1\<rparr>)"

subsection \<open>pop\<close>

text \<open>
  The scan \<^verbatim>\<open>while (newTail.next !== this.#tail && newTail.next !== null)\<close>. It follows
  \<^verbatim>\<open>next\<close> links for as long as they are present, so on a cyclic store it need not
  stop: \<open>None\<close> is "does not return".
\<close>

partial_function (option) pop_loop :: "'a store \<Rightarrow> addr \<Rightarrow> addr \<Rightarrow> addr option" where
  "pop_loop h this_tail newTail =
    (if nxt (h ! newTail) \<noteq> Some this_tail \<and> nxt (h ! newTail) \<noteq> None
     then pop_loop h this_tail (the (nxt (h ! newTail)))
     else Some newTail)"

definition pop :: "'a sll \<Rightarrow> (addr option \<times> 'a sll) option" where
  "pop s =
    (case (s_head s, s_tail s) of
       (None, _) \<Rightarrow> Some (None, s)
     | (_, None) \<Rightarrow> Some (None, s)
     | (Some hd0, Some oldTail) \<Rightarrow>
         if s_head s = s_tail s \<and> s_length s = 1
         then Some (Some oldTail, s\<lparr>s_head := None, s_tail := None, s_length := 0\<rparr>)
         else do {
           newTail \<leftarrow> pop_loop (store s) oldTail hd0;
           Some (Some oldTail,
                 s\<lparr>store := assign_next (store s) newTail None,
                   s_length := s_length s - 1\<rparr>)
         })"

subsection \<open>get and set\<close>

text \<open>
  The scan \<^verbatim>\<open>while (counter !== index && current !== null)\<close>, returning the two loop
  variables.
\<close>

partial_function (option) get_loop ::
  "'a store \<Rightarrow> int \<Rightarrow> int \<Rightarrow> addr option \<Rightarrow> (int \<times> addr option) option" where
  "get_loop h index counter current =
    (if counter \<noteq> index \<and> current \<noteq> None
     then get_loop h index (counter + 1) (nxt (h ! the current))
     else Some (counter, current))"

definition get :: "'a sll \<Rightarrow> int \<Rightarrow> addr option option" where
  "get s index =
    (if index < 0 \<or> index \<ge> s_length s then Some None
     else do {
       (counter, current) \<leftarrow> get_loop (store s) index 0 (s_head s);
       if counter \<noteq> index then Some None else Some current
     })"

definition set_sll :: "'a sll \<Rightarrow> int \<Rightarrow> 'a \<Rightarrow> (bool \<times> 'a sll) option" where
  "set_sll s index d =
    do {
      node \<leftarrow> get s index;
      case node of
        None \<Rightarrow> Some (False, s)
      | Some n \<Rightarrow> Some (True, s\<lparr>store := assign_data (store s) n d\<rparr>)
    }"

subsection \<open>insert\<close>

definition insert_sll :: "'a sll \<Rightarrow> int \<Rightarrow> 'a \<Rightarrow> (bool \<times> 'a sll) option" where
  "insert_sll s index d =
    (if index < 0 \<or> index > s_length s then Some (False, s)
     else if index = s_length s then Some (True, push s d)
     else
       let (h1, newNode) = new_Node (store s) d;
           s1 = s\<lparr>store := h1\<rparr>
       in if index = 0
          then Some (True, s1\<lparr>store := assign_next h1 newNode (s_head s1),
                              s_head := Some newNode,
                              s_length := s_length s1 + 1\<rparr>)
          else do {
            prevNode \<leftarrow> get s1 (index - 1);
            case prevNode of
              None \<Rightarrow> Some (False, s1)
            | Some p \<Rightarrow>
                let h2 = assign_next h1 newNode (nxt (h1 ! p));
                    h3 = assign_next h2 p (Some newNode)
                in Some (True, s1\<lparr>store := h3, s_length := s_length s1 + 1\<rparr>)
          })"

subsection \<open>remove\<close>

text \<open>
  In the last branch the source reads \<^verbatim>\<open>const node = prevNode.next\<close> and then writes
  \<^verbatim>\<open>prevNode.next = node ?? null\<close>: the value written is the one just read.
\<close>

definition remove :: "'a sll \<Rightarrow> int \<Rightarrow> (addr option \<times> 'a sll) option" where
  "remove s index =
    (if index < 0 \<or> index \<ge> s_length s then Some (None, s)
     else if index = 0 \<and> s_head s \<noteq> None
     then let oldHead = the (s_head s)
          in Some (Some oldHead,
                   s\<lparr>s_head := nxt (store s ! oldHead), s_length := s_length s - 1\<rparr>)
     else do {
       prevNode \<leftarrow> get s (index - 1);
       case prevNode of
         None \<Rightarrow> Some (None, s)
       | Some p \<Rightarrow>
           let node = nxt (store s ! p)
           in Some (node, s\<lparr>store := assign_next (store s) p node,
                            s_length := s_length s - 1\<rparr>)
     })"

subsection \<open>removeHead\<close>

definition removeHead :: "'a sll \<Rightarrow> addr option \<times> 'a sll" where
  "removeHead s =
    (case s_head s of
       None \<Rightarrow> (None, s)
     | Some oldHead \<Rightarrow>
         let s1 = (if nxt (store s ! oldHead) \<noteq> None
                   then s\<lparr>s_head := nxt (store s ! oldHead)\<rparr>
                   else s)
         in (Some oldHead, s1\<lparr>s_length := s_length s1 - 1\<rparr>))"

subsection \<open>removeTail\<close>

text \<open>
  \<^verbatim>\<open>newTail?.next\<close> is \<^verbatim>\<open>undefined\<close> when \<^verbatim>\<open>newTail\<close> is \<^verbatim>\<open>null\<close>; \<^verbatim>\<open>undefined\<close> and
  \<^verbatim>\<open>null\<close> both differ from the node \<^verbatim>\<open>oldTail\<close>, and \<^verbatim>\<open>?? null\<close> turns both into
  \<^verbatim>\<open>null\<close>, so one \<open>None\<close> stands for the two.
\<close>

definition opt_next :: "'a store \<Rightarrow> addr option \<Rightarrow> addr option" where
  "opt_next h n = (case n of None \<Rightarrow> None | Some a \<Rightarrow> nxt (h ! a))"

text \<open>
  The scan \<^verbatim>\<open>while (newTail?.next !== oldTail) { newTail = newTail?.next ?? null }\<close>.
  Nothing stops it at the end of the chain: \<open>None\<close> is "does not return".
\<close>

partial_function (option) removeTail_loop ::
  "'a store \<Rightarrow> addr \<Rightarrow> addr option \<Rightarrow> addr option option" where
  "removeTail_loop h oldTail newTail =
    (if opt_next h newTail \<noteq> Some oldTail
     then removeTail_loop h oldTail (opt_next h newTail)
     else Some newTail)"

text \<open>
  After the scan the source runs \<^verbatim>\<open>this.#tail = newTail; this.#tail.next = null\<close>, which
  throws a \<^verbatim>\<open>TypeError\<close> if \<^verbatim>\<open>newTail\<close> is \<^verbatim>\<open>null\<close>.
\<close>

datatype error = TypeError

definition removeTail :: "'a sll \<Rightarrow> (error + addr option \<times> 'a sll) option" where
  "removeTail s =
    (case (s_tail s, s_head s) of
       (None, _) \<Rightarrow> Some (Inr (None, s))
     | (_, None) \<Rightarrow> Some (Inr (None, s))
     | (Some oldTail, Some hd0) \<Rightarrow>
         do {
           newTail \<leftarrow> removeTail_loop (store s) oldTail (Some hd0);
           case newTail of
             None \<Rightarrow> Some (Inl TypeError)
           | Some t \<Rightarrow>
               Some (Inr (Some oldTail,
                          s\<lparr>s_length := s_length s - 1,
                            s_tail := Some t,
                            store := assign_next (store s) t None\<rparr>))
         })"

subsection \<open>toArray\<close>

text \<open>The scan \<^verbatim>\<open>while (currentNode !== null)\<close>; on a cyclic store it does not return.\<close>

partial_function (option) toArray_loop ::
  "'a store \<Rightarrow> 'a list \<Rightarrow> addr option \<Rightarrow> 'a list option" where
  "toArray_loop h array currentNode =
    (case currentNode of
       None \<Rightarrow> Some array
     | Some c \<Rightarrow> toArray_loop h (array @ [data (h ! c)]) (nxt (h ! c)))"

definition toArray :: "'a sll \<Rightarrow> 'a list option" where
  "toArray s = toArray_loop (store s) [] (s_head s)"

section \<open>Chains and well-formed references\<close>

text \<open>
  \<open>walk h n c\<close> follows \<^verbatim>\<open>next\<close> from \<open>c\<close> for \<open>n\<close> steps, staying at \<^verbatim>\<open>null\<close> once it is
  reached: the node at position \<open>n\<close> of the chain that starts at \<open>c\<close>, if there is one.
\<close>

fun walk :: "'a store \<Rightarrow> nat \<Rightarrow> addr option \<Rightarrow> addr option" where
  "walk h 0 c = c"
| "walk h (Suc n) c = walk h n (opt_next h c)"

text \<open>
  A JavaScript reference always names an existing object. In the store model this is
  the property that every reference held by the list or by a node lies inside the
  store; every operation keeps it (lemma \<open>reachable_valid_refs\<close> below).
\<close>

definition in_store :: "'a store \<Rightarrow> addr option \<Rightarrow> bool" where
  "in_store h r = (case r of None \<Rightarrow> True | Some a \<Rightarrow> a < length h)"

definition closed :: "'a store \<Rightarrow> bool" where
  "closed h = list_all (\<lambda>n. in_store h (nxt n)) h"

definition valid_refs :: "'a sll \<Rightarrow> bool" where
  "valid_refs s =
    (in_store (store s) (s_head s) \<and> in_store (store s) (s_tail s) \<and> closed (store s))"

text \<open>The states that a program can build: the empty list, and what the methods return.\<close>

inductive reachable :: "'a sll \<Rightarrow> bool" where
  r_constructor: "reachable constructor"
| r_push: "reachable s \<Longrightarrow> reachable (push s d)"
| r_pop: "reachable s \<Longrightarrow> pop s = Some (r, s') \<Longrightarrow> reachable s'"
| r_set: "reachable s \<Longrightarrow> set_sll s i d = Some (b, s') \<Longrightarrow> reachable s'"
| r_insert: "reachable s \<Longrightarrow> insert_sll s i d = Some (b, s') \<Longrightarrow> reachable s'"
| r_remove: "reachable s \<Longrightarrow> remove s i = Some (r, s') \<Longrightarrow> reachable s'"
| r_removeHead: "reachable s \<Longrightarrow> removeHead s = (r, s') \<Longrightarrow> reachable s'"
| r_removeTail: "reachable s \<Longrightarrow> removeTail s = Some (Inr (r, s')) \<Longrightarrow> reachable s'"

text \<open>
  What a caller can still see of a list \<open>s\<close> in a later state \<open>s'\<close> when nothing was
  changed: the three fields, and every node that existed, with its data and its link.
\<close>

definition kept :: "'a sll \<Rightarrow> 'a sll \<Rightarrow> bool" where
  "kept s s' = (head s' = head s \<and> tail s' = tail s \<and> length_sll s' = length_sll s \<and>
                take (length (store s)) (store s') = store s)"

section \<open>Facts about the scans\<close>

subsection \<open>The scan of removeTail\<close>

text \<open>
  The scan can only return from a node that has a successor: from a node without one it
  moves to \<^verbatim>\<open>null\<close>, and from \<^verbatim>\<open>null\<close> to \<^verbatim>\<open>null\<close> again.
\<close>

lemma removeTail_loop_needs_next:
  assumes "removeTail_loop h oldTail newTail = Some r"
  shows "opt_next h newTail \<noteq> None"
proof (rule removeTail_loop.raw_induct
    [where P = "\<lambda>h oldTail newTail r. opt_next h newTail \<noteq> None", OF _ assms])
  fix f :: "'a store \<Rightarrow> addr \<Rightarrow> addr option \<Rightarrow> addr option option"
  fix h oldTail newTail r
  assume IH: "\<And>h oldTail newTail r. f h oldTail newTail = Some r \<Longrightarrow> opt_next h newTail \<noteq> None"
  assume step: "(if opt_next h newTail \<noteq> Some oldTail
      then f h oldTail (opt_next h newTail) else Some newTail) = Some r"
  show "opt_next h newTail \<noteq> None"
  proof
    assume e: "opt_next h newTail = None"
    with step have "f h oldTail None = Some r" by simp
    from IH[OF this] show False by (simp add: opt_next_def)
  qed
qed

lemma removeTail_loop_result:
  assumes "removeTail_loop h oldTail newTail = Some r"
  shows "opt_next h r = Some oldTail"
proof (rule removeTail_loop.raw_induct
    [where P = "\<lambda>h oldTail newTail r. opt_next h r = Some oldTail", OF _ assms])
  fix f :: "'a store \<Rightarrow> addr \<Rightarrow> addr option \<Rightarrow> addr option option"
  fix h oldTail newTail r
  assume IH: "\<And>h oldTail newTail r. f h oldTail newTail = Some r \<Longrightarrow> opt_next h r = Some oldTail"
  assume step: "(if opt_next h newTail \<noteq> Some oldTail
      then f h oldTail (opt_next h newTail) else Some newTail) = Some r"
  show "opt_next h r = Some oldTail"
  proof (cases "opt_next h newTail \<noteq> Some oldTail")
    case True
    with step have "f h oldTail (opt_next h newTail) = Some r" by simp
    from IH[OF this] show ?thesis .
  next
    case False
    with step show ?thesis by simp
  qed
qed

text \<open>On a list whose head and tail are one node without successor, removeTail does not return.\<close>

lemma removeTail_single_diverges:
  assumes "s_head s = Some a" "s_tail s = Some a" "nxt (store s ! a) = None"
  shows "removeTail s = None"
proof -
  have "removeTail_loop (store s) a (Some a) = None"
  proof (cases "removeTail_loop (store s) a (Some a)")
    case (Some r)
    from removeTail_loop_needs_next[OF this] assms(3) show ?thesis by (simp add: opt_next_def)
  qed simp
  with assms show ?thesis by (simp add: removeTail_def)
qed

text \<open>The \<^verbatim>\<open>TypeError\<close> after the scan is never thrown: the scan only returns a node.\<close>

lemma removeTail_no_throw: "removeTail s \<noteq> Some (Inl e)"
proof
  assume a: "removeTail s = Some (Inl e)"
  then obtain oldTail hd0 where t: "s_tail s = Some oldTail" and h: "s_head s = Some hd0"
    by (auto simp: removeTail_def split: option.splits)
  with a have "removeTail_loop (store s) oldTail (Some hd0) = Some None"
    by (auto simp: removeTail_def split: option.splits bind_splits)
  from removeTail_loop_result[OF this] show False by (simp add: opt_next_def)
qed

subsection \<open>The scan of get\<close>

text \<open>
  The scan of get always returns, and get yields the node at position \<open>index\<close> of the
  chain from the head whenever the index passes the guard.
\<close>

lemma walk_None [simp]: "walk h n None = None"
  by (induction n) (simp_all add: opt_next_def)

lemma walk_Suc_end: "walk h (Suc n) c = opt_next h (walk h n c)"
  by (induction n arbitrary: c) simp_all

lemma get_loop_walk:
  "counter \<le> index \<Longrightarrow> nat (index - counter) = n \<Longrightarrow>
   \<exists>c cur'. get_loop h index counter cur = Some (c, cur') \<and>
     (if c \<noteq> index then None else cur') = walk h n cur"
proof (induction n arbitrary: counter cur)
  case 0
  then have "counter = index" by simp
  then show ?case by (subst get_loop.simps) simp
next
  case (Suc n)
  then have ne: "counter \<noteq> index" by auto
  show ?case
  proof (cases cur)
    case None
    with ne show ?thesis by (subst get_loop.simps) simp
  next
    case (Some a)
    from Suc.prems have "counter + 1 \<le> index" "nat (index - (counter + 1)) = n" by auto
    from Suc.IH[OF this, of "nxt (h ! a)"] ne Some
    show ?thesis by (subst get_loop.simps) (simp add: opt_next_def)
  qed
qed

lemma get_eq:
  "get s index =
    Some (if index < 0 \<or> index \<ge> s_length s then None
          else walk (store s) (nat index) (s_head s))"
proof (cases "index < 0 \<or> index \<ge> s_length s")
  case True
  then show ?thesis by (simp add: get_def)
next
  case False
  then have "0 \<le> index" by simp
  from get_loop_walk[OF this, of "nat index" "store s" "s_head s"]
  obtain c cur' where "get_loop (store s) index 0 (s_head s) = Some (c, cur')"
    and "(if c \<noteq> index then None else cur') = walk (store s) (nat index) (s_head s)"
    by auto
  with False show ?thesis by (auto simp: get_def)
qed

lemma assign_next_same [simp]: "assign_next h p (nxt (h ! p)) = h"
  by (simp add: assign_next_def)

lemma remove_eq:
  "remove s index =
    Some (if index < 0 \<or> index \<ge> s_length s then (None, s)
          else if index = 0 then
            (case s_head s of None \<Rightarrow> (None, s)
             | Some a \<Rightarrow> (Some a, s\<lparr>s_head := nxt (store s ! a), s_length := s_length s - 1\<rparr>))
          else
            (case walk (store s) (nat (index - 1)) (s_head s) of None \<Rightarrow> (None, s)
             | Some p \<Rightarrow> (nxt (store s ! p), s\<lparr>s_length := s_length s - 1\<rparr>)))"
  by (auto simp: remove_def get_eq Let_def split: option.splits)

lemma remove_returns_get:
  "\<exists>r s'. remove s index = Some (r, s') \<and> get s index = Some r \<and> s_tail s' = s_tail s"
proof -
  consider "index < 0 \<or> index \<ge> s_length s" | "index = 0" "0 < s_length s"
    | "0 < index" "index < s_length s" by linarith
  then show ?thesis
  proof cases
    case 1
    then show ?thesis by (auto simp: remove_eq get_eq)
  next
    case 2
    then show ?thesis by (auto simp: remove_eq get_eq split: option.splits)
  next
    case 3
    then have "nat index = Suc (nat (index - 1))" by arith
    then obtain n where n: "nat index = Suc n" "nat (index - 1) = n" by simp
    with 3 show ?thesis
      by (cases "walk (store s) n (s_head s)") (auto simp: remove_eq get_eq walk_Suc_end opt_next_def simp del: walk.simps)
  qed
qed

text \<open>
  For a positive index, remove changes nothing but the length counter: the store and the
  head, and so the array, are as before.
\<close>

lemma remove_positive_index:
  assumes "0 < index" "remove s index = Some (r, s')"
  shows "store s' = store s \<and> s_head s' = s_head s \<and> toArray s' = toArray s"
  using assms by (auto simp: remove_eq toArray_def split: if_splits option.splits)

section \<open>Every reference stays inside the store\<close>

lemma in_store_Some [simp]: "in_store h (Some a) = (a < length h)"
  by (simp add: in_store_def)

lemma in_store_None [simp]: "in_store h None"
  by (simp add: in_store_def)

lemma in_store_update [simp]: "in_store (h[p := x]) r = in_store h r"
  by (cases r) simp_all

lemma length_assign_next [simp]: "length (assign_next h p v) = length h"
  by (simp add: assign_next_def)

lemma length_assign_data [simp]: "length (assign_data h p d) = length h"
  by (simp add: assign_data_def)

lemma in_store_assign_next [simp]: "in_store (assign_next h p v) r = in_store h r"
  by (cases r) simp_all

lemma in_store_assign_data [simp]: "in_store (assign_data h p d) r = in_store h r"
  by (cases r) simp_all

lemma in_store_append: "in_store h r \<Longrightarrow> in_store (h @ xs) r"
  by (cases r) simp_all

lemma closed_nth: "closed h \<Longrightarrow> a < length h \<Longrightarrow> in_store h (nxt (h ! a))"
  by (simp add: closed_def list_all_length)

lemma closed_opt_next: "closed h \<Longrightarrow> in_store h c \<Longrightarrow> in_store h (opt_next h c)"
  by (cases c) (simp_all add: opt_next_def closed_nth)

lemma closed_assign_next: "closed h \<Longrightarrow> in_store h v \<Longrightarrow> closed (assign_next h p v)"
  unfolding closed_def list_all_length
  by (cases "p < length h") (auto simp: assign_next_def nth_list_update)

lemma closed_assign_data: "closed h \<Longrightarrow> closed (assign_data h p d)"
  unfolding closed_def list_all_length
  by (cases "p < length h") (auto simp: assign_data_def nth_list_update)

lemma closed_new_Node: "closed h \<Longrightarrow> closed (fst (new_Node h d))"
  unfolding closed_def list_all_length
  by (auto simp: new_Node_def nth_append in_store_append)

lemma closed_walk: "closed h \<Longrightarrow> in_store h c \<Longrightarrow> in_store h (walk h n c)"
  by (induction n arbitrary: c) (simp_all add: closed_opt_next)

lemma valid_refs_constructor: "valid_refs constructor"
  by (simp add: valid_refs_def closed_def constructor_def)

lemma valid_refs_push: "valid_refs s \<Longrightarrow> valid_refs (push s d)"
proof -
  assume v: "valid_refs s"
  let ?h1 = "fst (new_Node (store s) d)"
  have c1: "closed ?h1" using v by (simp add: valid_refs_def closed_new_Node)
  have n: "in_store ?h1 (Some (length (store s)))" by (simp add: new_Node_def)
  have hd: "in_store ?h1 (s_head s)" using v by (simp add: valid_refs_def new_Node_def in_store_append)
  show ?thesis
    using c1 n hd closed_assign_next[OF c1 n]
    by (cases "s_tail s") (auto simp: valid_refs_def push_def Let_def new_Node_def)
qed

lemma removeTail_loop_in_store:
  assumes "removeTail_loop h oldTail newTail = Some r"
  shows "closed h \<longrightarrow> in_store h newTail \<longrightarrow> in_store h r"
proof (rule removeTail_loop.raw_induct
    [where P = "\<lambda>h oldTail newTail r. closed h \<longrightarrow> in_store h newTail \<longrightarrow> in_store h r", OF _ assms])
  fix f :: "'a store \<Rightarrow> addr \<Rightarrow> addr option \<Rightarrow> addr option option"
  fix h oldTail newTail r
  assume IH: "\<And>h oldTail newTail r. f h oldTail newTail = Some r \<Longrightarrow>
     closed h \<longrightarrow> in_store h newTail \<longrightarrow> in_store h r"
  assume step: "(if opt_next h newTail \<noteq> Some oldTail
      then f h oldTail (opt_next h newTail) else Some newTail) = Some r"
  show "closed h \<longrightarrow> in_store h newTail \<longrightarrow> in_store h r"
  proof (cases "opt_next h newTail \<noteq> Some oldTail")
    case True
    with step have "f h oldTail (opt_next h newTail) = Some r" by simp
    from IH[OF this] show ?thesis by (simp add: closed_opt_next)
  next
    case False
    with step show ?thesis by simp
  qed
qed

lemma valid_refs_pop:
  assumes "valid_refs s" "pop s = Some (r, s')"
  shows "valid_refs s'"
proof (cases "s_head s")
  case None
  with assms show ?thesis by (simp add: pop_def)
next
  case hd: (Some hd0)
  show ?thesis
  proof (cases "s_tail s")
    case None
    with hd assms show ?thesis by (simp add: pop_def)
  next
    case tl: (Some oldTail)
    show ?thesis
    proof (cases "s_head s = s_tail s \<and> s_length s = 1")
      case True
      with hd tl assms(2) have "s' = s\<lparr>s_head := None, s_tail := None, s_length := 0\<rparr>"
        by (simp add: pop_def)
      with assms(1) show ?thesis by (simp add: valid_refs_def)
    next
      case False
      with hd tl assms(2) obtain newTail where
        "s' = s\<lparr>store := assign_next (store s) newTail None, s_length := s_length s - 1\<rparr>"
        by (auto simp: pop_def split: bind_splits)
      with assms(1) show ?thesis by (simp add: valid_refs_def closed_assign_next)
    qed
  qed
qed

lemma valid_refs_set: "valid_refs s \<Longrightarrow> set_sll s i d = Some (b, s') \<Longrightarrow> valid_refs s'"
  by (auto simp: set_sll_def valid_refs_def closed_assign_data
      split: option.splits bind_splits)

lemma valid_refs_removeHead:
  assumes "valid_refs s" "removeHead s = (r, s')"
  shows "valid_refs s'"
proof (cases "s_head s")
  case None
  with assms show ?thesis by (simp add: removeHead_def)
next
  case (Some oldHead)
  with assms(1) have "in_store (store s) (nxt (store s ! oldHead))"
    by (simp add: valid_refs_def closed_nth)
  moreover from Some assms(2) have
    "s' = (if nxt (store s ! oldHead) \<noteq> None
           then s\<lparr>s_head := nxt (store s ! oldHead), s_length := s_length s - 1\<rparr>
           else s\<lparr>s_length := s_length s - 1\<rparr>)"
    by (auto simp: removeHead_def Let_def split: if_splits)
  ultimately show ?thesis using assms(1) Some by (auto simp: valid_refs_def split: if_splits)
qed

lemma valid_refs_remove: "valid_refs s \<Longrightarrow> remove s i = Some (r, s') \<Longrightarrow> valid_refs s'"
  by (auto simp: remove_eq valid_refs_def closed_nth split: option.splits if_splits)

lemma valid_refs_removeTail:
  assumes "valid_refs s" "removeTail s = Some (Inr (r, s'))"
  shows "valid_refs s'"
proof (cases "s_tail s = None \<or> s_head s = None")
  case True
  with assms show ?thesis by (auto simp: removeTail_def split: option.splits)
next
  case False
  then obtain oldTail hd0 where t: "s_tail s = Some oldTail" and h: "s_head s = Some hd0"
    by auto
  with assms(2) obtain nt where l: "removeTail_loop (store s) oldTail (Some hd0) = Some (Some nt)"
    and s': "s' = s\<lparr>s_length := s_length s - 1, s_tail := Some nt,
                     store := assign_next (store s) nt None\<rparr>"
    by (auto simp: removeTail_def split: option.splits bind_splits)
  from removeTail_loop_in_store[OF l] assms(1) h have "nt < length (store s)"
    by (simp add: valid_refs_def)
  with assms(1) s' show ?thesis by (simp add: valid_refs_def closed_assign_next)
qed

lemma valid_refs_insert:
  assumes v: "valid_refs s" and i: "insert_sll s i d = Some (b, s')"
  shows "valid_refs s'"
proof -
  let ?h1 = "store s @ [\<lparr>data = d, nxt = None\<rparr>]"
  let ?s1 = "s\<lparr>store := ?h1\<rparr>"
  have c1: "closed ?h1" using v closed_new_Node[of "store s" d]
    by (simp add: valid_refs_def new_Node_def)
  have hd: "in_store ?h1 (s_head s)" and tl: "in_store ?h1 (s_tail s)"
    using v by (simp_all add: valid_refs_def in_store_append)
  have v1: "valid_refs ?s1" using c1 hd tl by (simp add: valid_refs_def)
  consider "i < 0 \<or> i > s_length s" | "i = s_length s" "0 \<le> i" | "i = 0" "0 < s_length s"
    | "0 < i" "i < s_length s" by linarith
  then show ?thesis
  proof cases
    case 1
    with i v show ?thesis by (simp add: insert_sll_def)
  next
    case 2
    with i v show ?thesis by (auto simp: insert_sll_def valid_refs_push)
  next
    case 3
    with i have "s' = ?s1\<lparr>store := assign_next ?h1 (length (store s)) (s_head s),
                         s_head := Some (length (store s)), s_length := s_length s + 1\<rparr>"
      by (auto simp: insert_sll_def new_Node_def)
    with c1 hd tl show ?thesis by (simp add: valid_refs_def closed_assign_next)
  next
    case 4
    show ?thesis
    proof (cases "walk ?h1 (nat (i - 1)) (s_head s)")
      case None
      with 4 i have "s' = ?s1" by (auto simp: insert_sll_def new_Node_def get_eq)
      with v1 show ?thesis by simp
    next
      case (Some p)
      with 4 i have s': "s' = ?s1\<lparr>store := assign_next (assign_next ?h1 (length (store s)) (nxt (?h1 ! p))) p (Some (length (store s))),
                          s_length := s_length s + 1\<rparr>"
        by (auto simp: insert_sll_def new_Node_def get_eq Let_def)
      from closed_walk[OF c1 hd, of "nat (i - 1)"] Some have p: "p < length ?h1" by simp
      from closed_nth[OF c1 p] have "in_store ?h1 (nxt (?h1 ! p))" .
      from closed_assign_next[OF c1 this, of "length (store s)"]
      have "closed (assign_next ?h1 (length (store s)) (nxt (?h1 ! p)))" .
      from closed_assign_next[OF this, of "Some (length (store s))" p]
      have "closed (assign_next (assign_next ?h1 (length (store s)) (nxt (?h1 ! p))) p (Some (length (store s))))"
        by simp
      with hd tl s' show ?thesis by (simp add: valid_refs_def)
    qed
  qed
qed

lemma reachable_valid_refs: "reachable s \<Longrightarrow> valid_refs s"
proof (induction rule: reachable.induct)
  case r_constructor
  show ?case by (rule valid_refs_constructor)
next
  case (r_push s d)
  then show ?case by (simp add: valid_refs_push)
next
  case (r_pop s r s')
  then show ?case by (blast intro: valid_refs_pop)
next
  case (r_set s i d b s')
  then show ?case by (blast intro: valid_refs_set)
next
  case (r_insert s i d b s')
  then show ?case by (blast intro: valid_refs_insert)
next
  case (r_remove s i r s')
  then show ?case by (blast intro: valid_refs_remove)
next
  case (r_removeHead s r s')
  then show ?case by (blast intro: valid_refs_removeHead)
next
  case (r_removeTail s r s')
  then show ?case by (blast intro: valid_refs_removeTail)
qed

text \<open>Appending fresh nodes to the store does not change an existing chain.\<close>

lemma walk_append:
  "closed h \<Longrightarrow> in_store h c \<Longrightarrow> walk (h @ xs) n c = walk h n c"
proof (induction n arbitrary: c)
  case 0
  show ?case by simp
next
  case (Suc n)
  from Suc.prems have "opt_next (h @ xs) c = opt_next h c"
    by (cases c) (simp_all add: opt_next_def nth_append)
  moreover from Suc.prems have "in_store h (opt_next h c)" by (simp add: closed_opt_next)
  ultimately show ?case using Suc by simp
qed

lemma set_sll_eq:
  "set_sll s index d =
    Some (case (if index < 0 \<or> index \<ge> s_length s then None
                else walk (store s) (nat index) (s_head s)) of
            None \<Rightarrow> (False, s)
          | Some n \<Rightarrow> (True, s\<lparr>store := assign_data (store s) n d\<rparr>))"
  by (simp add: set_sll_def get_eq split: option.splits)

text \<open>
  insert at the index \<^verbatim>\<open>#length\<close> is push, as long as the guard on negative indices
  lets the index through.
\<close>

lemma insert_at_length_push:
  "0 \<le> s_length s \<Longrightarrow> insert_sll s (s_length s) x = Some (True, push s x)"
  by (simp add: insert_sll_def)

section \<open>The claims\<close>

lemmas run_defs = Let_def constructor_def push_def new_Node_def assign_next_def assign_data_def
  length_sll_def head_def tail_def opt_next_def

subsection \<open>removeHead\<close>

text \<open>
  Claim C5. On every list whose head is present, removeHead returns the current head
  node and decrements the length by one. If the removed head has a successor, the head
  becomes that successor. If it has none, the head is left equal to the node just
  removed: it is not absent, although the length of a one-element list becomes 0.
\<close>

theorem removeHead_nonempty:
  assumes "head s = Some a"
  shows "\<exists>s'. removeHead s = (Some a, s') \<and>
           length_sll s' = length_sll s - 1 \<and>
           (\<forall>b. nxt (store s ! a) = Some b \<longrightarrow> head s' = Some b) \<and>
           (nxt (store s ! a) = None \<longrightarrow>
              head s' = Some a \<and> head s' \<noteq> None \<and> (length_sll s = 1 \<longrightarrow> length_sll s' = 0))"
  using assms by (auto simp: removeHead_def head_def length_sll_def Let_def)

theorem removeHead_nonempty_witness:
  "head (push constructor (5::int)) = Some 0 \<and>
   nxt (store (push constructor (5::int)) ! 0) = None \<and>
   length_sll (push constructor (5::int)) = 1 \<and>
   fst (removeHead (push constructor (5::int))) = Some 0 \<and>
   head (snd (removeHead (push constructor (5::int)))) = Some 0 \<and>
   length_sll (snd (removeHead (push constructor (5::int)))) = 0 \<and>
   head (push (push constructor (5::int)) 6) = Some 0 \<and>
   nxt (store (push (push constructor (5::int)) 6) ! 0) = Some 1 \<and>
   fst (removeHead (push (push constructor (5::int)) 6)) = Some 0 \<and>
   head (snd (removeHead (push (push constructor (5::int)) 6))) = Some 1 \<and>
   length_sll (snd (removeHead (push (push constructor (5::int)) 6))) = 1"
  using removeHead_nonempty [of "push constructor (5::int)" 0]
        removeHead_nonempty [of "push (push constructor (5::int)) 6" 0]
  by (simp add: run_defs removeHead_def)

subsection \<open>remove\<close>

text \<open>
  Claim C6. For every list and every index, remove returns and leaves the tail field as
  it was. In particular, when the node at the index is the tail node, the node that
  remove returns is the one that the tail still refers to afterwards.
\<close>

theorem remove_keeps_tail:
  "\<exists>r s'. remove s index = Some (r, s') \<and> tail s' = tail s \<and>
     (tail s \<noteq> None \<and> get s index = Some (tail s) \<longrightarrow> r = tail s')"
  using remove_returns_get [of s index] by (auto simp: tail_def)

theorem remove_keeps_tail_witness:
  "tail (push (push constructor (1::int)) 2) = Some 1 \<and>
   get (push (push constructor (1::int)) 2) 1 = Some (Some 1) \<and>
   (\<exists>s'. remove (push (push constructor (1::int)) 2) 1 = Some (Some 1, s') \<and> tail s' = Some 1)"
  using remove_keeps_tail [of "push (push constructor (1::int)) 2" 1]
  by (auto simp add: run_defs get_eq)

text \<open>
  Claim C1. After push(1), push(2), push(3), the call remove(1) returns the node at
  position 1, whose data is 2, and decrements the length to 2; but the node is not
  spliced out: toArray() afterwards is still [1, 2, 3], where the claim has [1, 3].
\<close>

theorem remove_1_of_123:
  "do { (r, s') \<leftarrow> remove (push (push (push constructor (1::int)) 2) 3) 1;
        arr \<leftarrow> toArray s';
        Some (r, map_option (\<lambda>n. data (store s' ! n)) r, arr, length_sll s') }
   = Some (Some 1, Some 2, [1, 2, 3], 2)"
  by (simp add: run_defs remove_def get_def get_loop.simps toArray_def toArray_loop.simps)

subsection \<open>removeTail\<close>

text \<open>
  Claim C2. Not every operation returns on every reachable list: on the list made by one
  push on the empty list, whatever the value, removeTail does not return.
\<close>

theorem removeTail_diverges_after_first_push:
  "removeTail (push constructor v) = None"
  by (rule removeTail_single_diverges [where a = 0]) (simp_all add: run_defs)

text \<open>
  Claim C3. On the single-element list [5] (length 1), removeTail does not return the
  sole node and does not leave an empty list: it does not return at all.
\<close>

theorem removeTail_single_5:
  "toArray (push constructor (5::int)) = Some [5] \<and>
   length_sll (push constructor (5::int)) = 1 \<and>
   removeTail (push constructor (5::int)) = None"
proof -
  have "removeTail (push constructor (5::int)) = None"
    by (rule removeTail_single_diverges [where a = 0]) (simp_all add: run_defs)
  then show ?thesis by (simp add: run_defs toArray_def toArray_loop.simps)
qed

subsection \<open>The length counter\<close>

text \<open>
  Claim C4. The length counter does not always match the chain. After push(1), push(2),
  remove(1) the length is 1 and the chain from the head has 2 nodes; after push(1),
  removeHead() the length is 0 and the chain from the head has 1 node.
\<close>

theorem length_differs_from_chain:
  "do { (r, s') \<leftarrow> remove (push (push constructor (1::int)) 2) 1;
        arr \<leftarrow> toArray s';
        Some (length_sll s', int (length arr)) } = Some (1, 2) \<and>
   do { let (r, s') = removeHead (push constructor (1::int));
        arr \<leftarrow> toArray s';
        Some (length_sll s', int (length arr)) } = Some (0, 1)"
  by (simp add: run_defs remove_def removeHead_def get_def get_loop.simps
      toArray_def toArray_loop.simps)

subsection \<open>set and insert\<close>

text \<open>
  Claim C7. On every list, set and insert return. set returns false exactly when the
  index is out of range or the lookup of the node fails; insert returns false exactly
  when the index is out of range or, for an index strictly between 0 and the length, the
  lookup of the predecessor fails. On every false result the head, the tail, the length
  and every existing node's data and link are as before (after a failed lookup, the node
  that insert had created is left unreferenced).
\<close>

theorem set_insert_false:
  assumes "valid_refs s"
  shows "(\<exists>b s'. set_sll s index d = Some (b, s') \<and>
            (\<not> b \<longleftrightarrow> index < 0 \<or> index \<ge> length_sll s \<or> get s index = Some None) \<and>
            (\<not> b \<longrightarrow> s' = s)) \<and>
         (\<exists>b s'. insert_sll s index d = Some (b, s') \<and>
            (\<not> b \<longleftrightarrow> index < 0 \<or> index > length_sll s \<or>
               (0 < index \<and> index < length_sll s \<and> get s (index - 1) = Some None)) \<and>
            (\<not> b \<longrightarrow> kept s s'))"
proof
  show "\<exists>b s'. set_sll s index d = Some (b, s') \<and>
            (\<not> b \<longleftrightarrow> index < 0 \<or> index \<ge> length_sll s \<or> get s index = Some None) \<and>
            (\<not> b \<longrightarrow> s' = s)"
    by (auto simp: set_sll_eq get_eq length_sll_def split: option.splits)
next
  let ?h1 = "store s @ [\<lparr>data = d, nxt = None\<rparr>]"
  have w: "walk ?h1 n (s_head s) = walk (store s) n (s_head s)" for n
    using assms by (simp add: valid_refs_def walk_append)
  consider "index < 0 \<or> index > s_length s" | "index = s_length s" "0 \<le> index"
    | "index = 0" "0 < s_length s" | "0 < index" "index < s_length s" by linarith
  then show "\<exists>b s'. insert_sll s index d = Some (b, s') \<and>
            (\<not> b \<longleftrightarrow> index < 0 \<or> index > length_sll s \<or>
               (0 < index \<and> index < length_sll s \<and> get s (index - 1) = Some None)) \<and>
            (\<not> b \<longrightarrow> kept s s')"
  proof cases
    case 1
    then show ?thesis by (auto simp: insert_sll_def length_sll_def kept_def)
  next
    case 2
    then show ?thesis by (auto simp: insert_sll_def length_sll_def)
  next
    case 3
    then show ?thesis by (auto simp: insert_sll_def length_sll_def new_Node_def)
  next
    case 4
    then show ?thesis
      by (cases "walk (store s) (nat (index - 1)) (s_head s)")
         (auto simp: insert_sll_def length_sll_def new_Node_def get_eq w Let_def kept_def
            head_def tail_def)
  qed
qed

theorem set_insert_false_witness:
  "\<exists>S. do { (r, s1) \<leftarrow> pop (push (push constructor (1::int)) 2);
             Some (push (push s1 3) 4) } = Some S \<and>
       valid_refs S \<and> length_sll S = 3 \<and> toArray S = Some [1] \<and>
       get S 2 = Some None \<and> set_sll S 2 9 = Some (False, S) \<and>
       get S 1 = Some None \<and>
       (\<exists>s'. insert_sll S 2 9 = Some (False, s') \<and> kept S s')"
proof -
  let ?S = "\<lparr>store = [\<lparr>data = 1::int, nxt = None\<rparr>, \<lparr>data = 2, nxt = Some 2\<rparr>,
                       \<lparr>data = 3, nxt = Some 3\<rparr>, \<lparr>data = 4, nxt = None\<rparr>],
             s_head = Some 0, s_tail = Some 3, s_length = 3\<rparr>"
  have r: "do { (r, s1) \<leftarrow> pop (push (push constructor (1::int)) 2);
                Some (push (push s1 3) 4) } = Some ?S"
    by (simp add: run_defs pop_def pop_loop.simps)
  have v: "valid_refs ?S"
    by (simp add: valid_refs_def closed_def)
  have g: "get ?S 2 = Some None" "get ?S 1 = Some None"
    by (simp_all add: get_def get_loop.simps)
  have t: "length_sll ?S = 3" "toArray ?S = Some [1]"
    by (simp_all add: length_sll_def toArray_def toArray_loop.simps)
  from set_insert_false [OF v, of 2 9] g
  have "set_sll ?S 2 9 = Some (False, ?S)"
    and "\<exists>s'. insert_sll ?S 2 9 = Some (False, s') \<and> kept ?S s'"
    by (auto simp: length_sll_def)
  with r v g t show ?thesis by blast
qed

subsection \<open>insert at the length\<close>

text \<open>
  Claim C9. insert at the index length() does not always return true and does not always
  do what push does. After push(1), removeHead(), removeHead() the head still names the
  removed node and the length counter is -1; insert at that index returns false and
  leaves the list as it was, where push would have appended a node.
\<close>

theorem insert_at_negative_length:
  "length_sll (snd (removeHead (snd (removeHead (push constructor (1::int)))))) = - 1 \<and>
   insert_sll (snd (removeHead (snd (removeHead (push constructor (1::int))))))
     (length_sll (snd (removeHead (snd (removeHead (push constructor (1::int))))))) 9
   = Some (False, snd (removeHead (snd (removeHead (push constructor (1::int))))))"
  by (simp add: run_defs removeHead_def insert_sll_def)

subsection \<open>pop after push\<close>

text \<open>
  Claim C8. pop after push does not always restore the array. After push(1), push(2),
  pop(), push(3), remove(0) the array is empty; push(9) followed by pop() returns the
  node with data 9, but toArray() is then [9], not the empty array it was before the push.
\<close>

theorem pop_after_push_on_stale_tail:
  "do { (r1, s1) \<leftarrow> pop (push (push constructor (1::int)) 2);
        (r2, s2) \<leftarrow> remove (push s1 3) 0;
        before \<leftarrow> toArray s2;
        (r, s3) \<leftarrow> pop (push s2 9);
        after \<leftarrow> toArray s3;
        Some (before, map_option (\<lambda>n. data (store s3 ! n)) r, after) }
   = Some ([], Some 9, [9])"
  by (simp add: run_defs pop_def pop_loop.simps remove_def toArray_def toArray_loop.simps)

subsection \<open>get below the length\<close>

text \<open>
  Claim C10. The chain from the head can be shorter than the length counter, and get can
  be absent for an index below the length. After push(1), push(2), pop(), push(3) the
  length is 2 and the chain is [1]; get(1) is absent. After one more push(4) the length
  is 3 and the scan of get(2) stops at the end of the chain with its counter at 1, so
  that the check of the counter against the index is what returns absent.
\<close>

theorem get_is_absent_below_length:
  "do { (r1, s1) \<leftarrow> pop (push (push constructor (1::int)) 2);
        let s2 = push s1 3;
        arr \<leftarrow> toArray s2;
        g \<leftarrow> get s2 1;
        let s3 = push s2 4;
        scan \<leftarrow> get_loop (store s3) 2 0 (s_head s3);
        g3 \<leftarrow> get s3 2;
        Some (length_sll s2, arr, g, length_sll s3, scan, g3) }
   = Some (2, [1], None, 3, (1, None), None)"
  by (simp add: run_defs pop_def pop_loop.simps get_def get_loop.simps toArray_def toArray_loop.simps)

end
